theory Spec2Isabelle
  imports Main
begin

section \<open>Data model\<close>

text \<open>
  A board cell is a pair (row, column) of Python integers. A Python \<open>set\<close> of cells is
  modelled as a list of its elements without repetition, read as the order in which
  a \<open>for\<close> loop visits them: membership, equality and inclusion of sets go through
  \<open>set\<close>, \<open>len\<close> is \<open>length\<close> (the operations below never introduce a duplicate),
  and a \<open>for\<close> loop over the set is a \<open>fold\<close> over the list. Python fixes no iteration
  order for a set. The theorems quantify over every list, hence over every order, and
  the loops over sets in \<open>add_knowledge\<close> mark every element of the set, so that the sets
  they produce do not depend on the order (lemmas \<open>fold_mark_safe_knowledge\<close> and
  \<open>fold_mark_mine_knowledge\<close>).
\<close>

type_synonym cell = "int \<times> int"

definition set_add :: "'a \<Rightarrow> 'a list \<Rightarrow> 'a list" where
  "set_add x xs = (if x \<in> set xs then xs else xs @ [x])"

definition symmetric_difference :: "'a list \<Rightarrow> 'a list \<Rightarrow> 'a list" where
  "symmetric_difference xs ys =
     filter (\<lambda>x. x \<notin> set ys) xs @ filter (\<lambda>y. y \<notin> set xs) ys"

subsection \<open>class Minesweeper\<close>

text \<open>
  The constructor sets \<open>board[i][j]\<close> to True exactly for the cells it adds to its
  \<open>mines\<close> set, so the board is represented by that set: for a cell inside the board,
  \<open>board[i][j]\<close> is membership in \<open>g_mines\<close>.
\<close>

record minesweeper =
  g_height :: int
  g_width :: int
  g_mines :: "cell list"

definition is_mine :: "minesweeper \<Rightarrow> cell \<Rightarrow> bool" where
  "is_mine g c \<longleftrightarrow> c \<in> set (g_mines g)"

definition nearby_mines :: "minesweeper \<Rightarrow> cell \<Rightarrow> int" where
  "nearby_mines g c =
     fold (\<lambda>p n.
            if p = c then n
            else if 0 \<le> fst p \<and> fst p < g_height g \<and> 0 \<le> snd p \<and> snd p < g_width g
                 then (if is_mine g p then n + 1 else n)
                 else n)
       (concat (map (\<lambda>i. map (\<lambda>j. (i, j)) [snd c - 1, snd c, snd c + 1])
                     [fst c - 1, fst c, fst c + 1]))
       0"

subsection \<open>class Sentence\<close>

text \<open>
  \<open>sid\<close> is the identity of the Python object: \<open>clean_knowledge\<close> compares sentences
  with \<open>is not\<close>. Every \<open>Sentence(...)\<close> call creates a new object, so it takes a new
  identity from the counter \<open>next_id\<close> of the agent.
\<close>

text \<open>
  \<open>Sentence.mark_mine\<close> and \<open>Sentence.mark_safe\<close> are \<open>sentence_mark_mine\<close> and
  \<open>sentence_mark_safe\<close> here; \<open>mark_mine\<close> and \<open>mark_safe\<close> are the agent's methods.
\<close>

record sentence =
  sid :: nat
  cells :: "cell list"
  count :: int

definition Sentence :: "nat \<Rightarrow> cell list \<Rightarrow> int \<Rightarrow> sentence" where
  "Sentence i cs n = \<lparr>sid = i, cells = remdups cs, count = n\<rparr>"

definition sentence_eq :: "sentence \<Rightarrow> sentence \<Rightarrow> bool" where
  "sentence_eq s t \<longleftrightarrow> set (cells s) = set (cells t) \<and> count s = count t"

definition known_mines :: "sentence \<Rightarrow> cell list option" where
  "known_mines s = (if int (length (cells s)) = count s then Some (cells s) else None)"

definition known_safes :: "sentence \<Rightarrow> cell list option" where
  "known_safes s = (if count s = 0 then Some (cells s) else None)"

definition sentence_mark_mine :: "cell \<Rightarrow> sentence \<Rightarrow> sentence" where
  "sentence_mark_mine c s =
     (if c \<in> set (cells s)
      then s\<lparr>cells := removeAll c (cells s), count := count s - 1\<rparr>
      else s)"

definition sentence_mark_safe :: "cell \<Rightarrow> sentence \<Rightarrow> sentence" where
  "sentence_mark_safe c s =
     (if c \<in> set (cells s) then s\<lparr>cells := removeAll c (cells s)\<rparr> else s)"

subsection \<open>class MinesweeperAI\<close>

record ai =
  height :: int
  width :: int
  moves_made :: "cell list"
  mines :: "cell list"
  safes :: "cell list"
  knowledge :: "sentence list"
  next_id :: nat

definition init :: "int \<Rightarrow> int \<Rightarrow> ai" where
  "init h w = \<lparr>height = h, width = w, moves_made = [], mines = [], safes = [],
               knowledge = [], next_id = 0\<rparr>"

definition mark_mine :: "cell \<Rightarrow> ai \<Rightarrow> ai" where
  "mark_mine c a = a\<lparr>mines := set_add c (mines a),
                     knowledge := map (sentence_mark_mine c) (knowledge a)\<rparr>"

definition mark_safe :: "cell \<Rightarrow> ai \<Rightarrow> ai" where
  "mark_safe c a = a\<lparr>safes := set_add c (safes a),
                     knowledge := map (sentence_mark_safe c) (knowledge a)\<rparr>"

definition in_grid :: "ai \<Rightarrow> cell \<Rightarrow> bool" where
  "in_grid a p \<longleftrightarrow> 0 \<le> fst p \<and> fst p < height a \<and> 0 \<le> snd p \<and> snd p < width a"

text \<open>
  The two nested loops of \<open>get_neighbors\<close> visit \<open>(i - r, j - c)\<close> for \<open>r\<close> and \<open>c\<close> in
  \<open>range(-1, 2)\<close> and append the positions that lie in the grid.
\<close>

definition get_neighbors :: "ai \<Rightarrow> cell \<Rightarrow> cell list" where
  "get_neighbors a c =
     filter (in_grid a)
       (concat (map (\<lambda>r. map (\<lambda>k. (fst c - r, snd c - k)) [-1, 0, 1]) [-1, 0, 1]))"

text \<open>Steps 1 to 3 of \<open>add_knowledge\<close>: everything before the certainty sweep.\<close>

definition add_sentence :: "ai \<Rightarrow> cell \<Rightarrow> int \<Rightarrow> ai" where
  "add_sentence a0 c n =
     (let a1 = a0\<lparr>moves_made := set_add c (moves_made a0)\<rparr>;
          a2 = mark_safe c a1;
          neighbors = get_neighbors a2 c;
          a3 = (if n > 0
                then a2\<lparr>knowledge := knowledge a2 @
                           [Sentence (next_id a2)
                              (filter (\<lambda>p. p \<notin> set (safes a2)) neighbors) n],
                        next_id := Suc (next_id a2)\<rparr>
                else a2)
      in if n = 0
         then fold (\<lambda>p a. if p \<notin> set (safes a) then mark_safe p a else a) neighbors a3
         else a3)"

text \<open>
  One iteration of the loop \<open>for sentence in self.knowledge\<close> of \<open>add_knowledge\<close>, at
  list index \<open>k\<close>. The marks change sentences in place and never the length of the
  list, so the loop visits the indices \<open>0 ..< len(knowledge)\<close> in order. \<open>safes.copy()\<close>
  and \<open>mines.copy()\<close> are the cell lists read before the marking starts.
\<close>

definition sweep_step :: "nat \<Rightarrow> ai \<Rightarrow> ai" where
  "sweep_step k a =
     (let a' = (case known_safes (knowledge a ! k) of
                  Some cs \<Rightarrow> if cs \<noteq> [] then fold mark_safe cs a else a
                | None \<Rightarrow> a)
      in case known_mines (knowledge a' ! k) of
           Some ms \<Rightarrow> if ms \<noteq> [] then fold mark_mine ms a' else a'
         | None \<Rightarrow> a')"

definition certainty_sweep :: "ai \<Rightarrow> ai" where
  "certainty_sweep a = fold sweep_step [0 ..< length (knowledge a)] a"

definition deductions :: "sentence list \<Rightarrow> (cell list \<times> int) list" where
  "deductions K =
     concat (map (\<lambda>s. concat (map (\<lambda>sub.
        if set (cells sub) \<noteq> set (cells s) \<and> length (cells sub) > 0
        then (if set (cells sub) \<subseteq> set (cells s)
              then [(symmetric_difference (cells s) (cells sub), count s - count sub)]
              else [])
        else []) K)) K)"

definition deduce_knowledge :: "ai \<Rightarrow> ai" where
  "deduce_knowledge a =
     (let ds = deductions (knowledge a)
      in a\<lparr>knowledge := knowledge a @
              map (\<lambda>(k, (cs, n)). Sentence (next_id a + k) cs n) (enumerate 0 ds),
            next_id := next_id a + length ds\<rparr>)"

text \<open>
  \<open>list.remove(x)\<close> deletes the first element that is \<open>x\<close> or compares equal to \<open>x\<close>
  with \<open>Sentence.__eq__\<close>. It raises ValueError when there is none; both calls in
  \<open>clean_knowledge\<close> pass an element just read from the list, so there is one and the
  list gets shorter by one (lemma \<open>list_remove_present\<close>).
\<close>

fun list_remove :: "sentence \<Rightarrow> sentence list \<Rightarrow> sentence list" where
  "list_remove x [] = []"
| "list_remove x (e # es) =
     (if sid e = sid x \<or> sentence_eq e x then es else e # list_remove x es)"

lemma length_list_remove: "length (list_remove x K) \<le> length K"
  by (induction K) auto

lemma list_remove_present: "x \<in> set K \<Longrightarrow> Suc (length (list_remove x K)) = length K"
  by (induction K) (auto simp: sentence_eq_def)

text \<open>
  A Python \<open>for\<close> loop over a list keeps an index: it reads \<open>K[j]\<close> while
  \<open>j < len(K)\<close>, with the length of the list as it is then, and increments \<open>j\<close>.
  \<open>clean_knowledge\<close> removes elements from the list inside both of its loops.
\<close>

function clean_inner :: "sentence \<Rightarrow> nat \<Rightarrow> sentence list \<Rightarrow> sentence list" where
  "clean_inner s j K =
     (if j < length K
      then (let d = K ! j;
                K' = (if sid d \<noteq> sid s
                      then (if set (cells s) = set (cells d) then list_remove d K else K)
                      else K)
            in clean_inner s (Suc j) K')
      else K)"
  by pat_completeness auto
termination
proof (relation "measure (\<lambda>(s, j, K). length K - j)")
  show "wf (measure (\<lambda>(s, j, K). length K - j))" by simp
next
  fix s :: sentence and j :: nat and K x xa
  assume "j < length K" and "x = K ! j"
    and "xa = (if sid x \<noteq> sid s
               then if set (cells s) = set (cells x) then list_remove x K else K else K)"
  then show "((s, Suc j, xa), s, j, K) \<in> measure (\<lambda>(s, j, K). length K - j)"
    using length_list_remove [of x K] by auto
qed

declare clean_inner.simps [simp del]

lemma length_clean_inner: "length (clean_inner s j K) \<le> length K"
proof (induction s j K rule: clean_inner.induct)
  case (1 s j K)
  show ?case
  proof (cases "j < length K")
    case True
    then show ?thesis
      using "1.IH" [OF True refl refl] length_list_remove [of "K ! j" K]
      by (subst clean_inner.simps) (auto simp: Let_def split: if_splits)
  next
    case False
    then show ?thesis by (subst clean_inner.simps) simp
  qed
qed

function clean_outer :: "nat \<Rightarrow> sentence list \<Rightarrow> sentence list" where
  "clean_outer i K =
     (if i < length K
      then (let s = K ! i;
                K1 = (if length (cells s) = 0 then list_remove s K else K)
            in clean_outer (Suc i) (clean_inner s 0 K1))
      else K)"
  by pat_completeness auto
termination
proof (relation "measure (\<lambda>(i, K). length K - i)")
  show "wf (measure (\<lambda>(i, K). length K - i))" by simp
next
  fix i :: nat and K x xa
  assume "i < length K" and "x = K ! i"
    and "xa = (if length (cells x) = 0 then list_remove x K else K)"
  then show "((Suc i, clean_inner x 0 xa), i, K) \<in> measure (\<lambda>(i, K). length K - i)"
    using length_clean_inner [of x 0 xa] length_list_remove [of x K] by auto
qed

declare clean_outer.simps [simp del]

definition clean_knowledge :: "ai \<Rightarrow> ai" where
  "clean_knowledge a = a\<lparr>knowledge := clean_outer 0 (knowledge a)\<rparr>"

definition add_knowledge :: "ai \<Rightarrow> cell \<Rightarrow> int \<Rightarrow> ai" where
  "add_knowledge a c n =
     (let a' = add_sentence a c n
      in if length (knowledge a') < 1 then a'
         else clean_knowledge (deduce_knowledge (certainty_sweep a')))"

text \<open>
  \<open>make_safe_move\<close> assigns to no field and calls no method that does, so the state
  after the call is the state before it; the model returns it beside the result to
  make that visible. Falling off the end of the \<open>for\<close> loop returns None.
\<close>

definition make_safe_move :: "ai \<Rightarrow> cell option \<times> ai" where
  "make_safe_move a =
     (if length (safes a) = length (moves_made a) then (None, a)
      else (find (\<lambda>c. c \<notin> set (moves_made a)) (safes a), a))"

text \<open>
  \<open>make_random_move\<close> draws with \<open>random.randrange\<close>. The model takes the moves drawn,
  in order, as a list: the \<open>while True\<close> loop returns the first one that qualifies,
  and has not returned (\<open>Pending\<close>) when the list is used up. \<open>randrange(n)\<close> raises
  ValueError for \<open>n \<le> 0\<close>.
\<close>

datatype outcome = Returned "cell option" | ValueError | Pending

fun random_loop :: "ai \<Rightarrow> cell list \<Rightarrow> outcome" where
  "random_loop a [] = Pending"
| "random_loop a (m # ds) =
     (if m \<notin> set (moves_made a) \<and> m \<notin> set (mines a) then Returned (Some m)
      else random_loop a ds)"

definition make_random_move :: "ai \<Rightarrow> cell list \<Rightarrow> outcome" where
  "make_random_move a draws =
     (let finished = width a * height a - int (length (mines a))
      in if int (length (moves_made a)) = finished then Returned None
         else if height a \<le> 0 \<or> width a \<le> 0 then ValueError
         else random_loop a draws)"

section \<open>Runs of the agent\<close>

text \<open>The states the agent can be in: the constructor, then any of its mutating methods.\<close>

inductive reachable :: "ai \<Rightarrow> bool" where
  r_init: "reachable (init h w)"
| r_add_knowledge: "reachable a \<Longrightarrow> reachable (add_knowledge a c n)"
| r_mark_safe: "reachable a \<Longrightarrow> reachable (mark_safe c a)"
| r_mark_mine: "reachable a \<Longrightarrow> reachable (mark_mine c a)"
| r_deduce_knowledge: "reachable a \<Longrightarrow> reachable (deduce_knowledge a)"
| r_clean_knowledge: "reachable a \<Longrightarrow> reachable (clean_knowledge a)"

text \<open>
  The driver's loop on a board \<open>g\<close>: it reveals the cells \<open>obs\<close> in order and tells the
  agent, for each, the board's count of mines around it.
\<close>

definition play :: "minesweeper \<Rightarrow> cell list \<Rightarrow> ai" where
  "play g obs =
     fold (\<lambda>c a. add_knowledge a c (nearby_mines g c)) obs (init (g_height g) (g_width g))"

definition on_board :: "minesweeper \<Rightarrow> cell \<Rightarrow> bool" where
  "on_board g p \<longleftrightarrow> 0 \<le> fst p \<and> fst p < g_height g \<and> 0 \<le> snd p \<and> snd p < g_width g"

text \<open>
  Every statement of the agent is true of the mine set \<open>G\<close>, every confirmed mine is
  in \<open>G\<close> and no confirmed safe cell is.
\<close>

definition sound :: "cell set \<Rightarrow> ai \<Rightarrow> bool" where
  "sound G a \<longleftrightarrow>
     set (mines a) \<subseteq> G \<and> set (safes a) \<inter> G = {} \<and>
     list_all (\<lambda>s. count s = int (card (set (cells s) \<inter> G))) (knowledge a)"

text \<open>No confirmed safe cell is a cell of a statement.\<close>

definition safe_reduced :: "ai \<Rightarrow> bool" where
  "safe_reduced a \<longleftrightarrow>
     list_all (\<lambda>s. set (cells s) \<inter> set (safes a) = {}) (knowledge a)"

section \<open>Auxiliary facts\<close>

subsection \<open>Sets as lists, neighbours\<close>

lemma set_set_add [simp]: "set (set_add x xs) = insert x (set xs)"
  by (auto simp: set_add_def)

lemma distinct_set_add [simp]: "distinct (set_add x xs) = distinct xs"
  by (auto simp: set_add_def)

lemma mark_safe_fields [simp]:
  "height (mark_safe c a) = height a" "width (mark_safe c a) = width a"
  "moves_made (mark_safe c a) = moves_made a" "mines (mark_safe c a) = mines a"
  "safes (mark_safe c a) = set_add c (safes a)"
  "knowledge (mark_safe c a) = map (sentence_mark_safe c) (knowledge a)"
  "next_id (mark_safe c a) = next_id a"
  by (simp_all add: mark_safe_def)

lemma mark_mine_fields [simp]:
  "height (mark_mine c a) = height a" "width (mark_mine c a) = width a"
  "moves_made (mark_mine c a) = moves_made a" "safes (mark_mine c a) = safes a"
  "mines (mark_mine c a) = set_add c (mines a)"
  "knowledge (mark_mine c a) = map (sentence_mark_mine c) (knowledge a)"
  "next_id (mark_mine c a) = next_id a"
  by (simp_all add: mark_mine_def)

lemma in_grid_mark [simp]:
  "in_grid (mark_safe c a) p = in_grid a p" "in_grid (mark_mine c a) p = in_grid a p"
  by (simp_all add: in_grid_def)

lemma positions_mem:
  "(x, y) \<in> set (concat (map (\<lambda>r. map (\<lambda>k. (i - r, j - k)) [-1, 0, 1 :: int]) [-1, 0, 1 :: int]))
     \<longleftrightarrow> i - 1 \<le> x \<and> x \<le> i + 1 \<and> j - 1 \<le> y \<and> y \<le> j + 1"
proof -
  have x: "i - 1 \<le> x \<and> x \<le> i + 1 \<longleftrightarrow> x = i + 1 \<or> x = i \<or> x = i - 1" by arith
  have y: "j - 1 \<le> y \<and> y \<le> j + 1 \<longleftrightarrow> y = j + 1 \<or> y = j \<or> y = j - 1" by arith
  have "(x, y) \<in> set (concat (map (\<lambda>r. map (\<lambda>k. (i - r, j - k)) [-1, 0, 1 :: int]) [-1, 0, 1 :: int]))
     \<longleftrightarrow> (x = i + 1 \<or> x = i \<or> x = i - 1) \<and> (y = j + 1 \<or> y = j \<or> y = j - 1)"
    by simp blast
  then show ?thesis using x y by blast
qed

lemma get_neighbors_mem:
  "(x, y) \<in> set (get_neighbors a (i, j)) \<longleftrightarrow>
     in_grid a (x, y) \<and> i - 1 \<le> x \<and> x \<le> i + 1 \<and> j - 1 \<le> y \<and> y \<le> j + 1"
  unfolding get_neighbors_def set_filter fst_conv snd_conv mem_Collect_eq positions_mem by blast


lemma get_neighbors_self: "in_grid a c \<Longrightarrow> c \<in> set (get_neighbors a c)"
  by (cases c) (simp add: get_neighbors_mem)


subsection \<open>Fields through the marking loops\<close>

lemma get_neighbors_cong:
  "height a = height b \<Longrightarrow> width a = width b \<Longrightarrow> get_neighbors a c = get_neighbors b c"
  by (simp add: get_neighbors_def in_grid_def [abs_def])

lemma get_neighbors_mark_safe [simp]:
  "get_neighbors (mark_safe p a) c = get_neighbors a c"
  "get_neighbors (a\<lparr>moves_made := ms\<rparr>) c = get_neighbors a c"
  by (rule get_neighbors_cong; simp)+

lemma fold_mark_safe_fields [simp]:
  "height (fold mark_safe cs a) = height a" "width (fold mark_safe cs a) = width a"
  "moves_made (fold mark_safe cs a) = moves_made a" "mines (fold mark_safe cs a) = mines a"
  "next_id (fold mark_safe cs a) = next_id a"
  "length (knowledge (fold mark_safe cs a)) = length (knowledge a)"
  "set (safes (fold mark_safe cs a)) = set (safes a) \<union> set cs"
  "distinct (safes (fold mark_safe cs a)) = distinct (safes a)"
  by (induction cs arbitrary: a; simp)+

lemma fold_mark_mine_fields [simp]:
  "height (fold mark_mine cs a) = height a" "width (fold mark_mine cs a) = width a"
  "moves_made (fold mark_mine cs a) = moves_made a" "safes (fold mark_mine cs a) = safes a"
  "next_id (fold mark_mine cs a) = next_id a"
  "length (knowledge (fold mark_mine cs a)) = length (knowledge a)"
  "set (mines (fold mark_mine cs a)) = set (mines a) \<union> set cs"
  "distinct (mines (fold mark_mine cs a)) = distinct (mines a)"
  by (induction cs arbitrary: a; simp)+

lemma sweep_step_fields [simp]:
  "height (sweep_step k a) = height a" "width (sweep_step k a) = width a"
  "moves_made (sweep_step k a) = moves_made a"
  "next_id (sweep_step k a) = next_id a"
  "length (knowledge (sweep_step k a)) = length (knowledge a)"
  "distinct (safes (sweep_step k a)) = distinct (safes a)"
  "distinct (mines (sweep_step k a)) = distinct (mines a)"
  by (simp_all add: sweep_step_def Let_def split: option.splits)

lemma sweep_step_grows:
  "set (safes a) \<subseteq> set (safes (sweep_step k a))" "set (mines a) \<subseteq> set (mines (sweep_step k a))"
  by (auto simp: sweep_step_def Let_def split: option.splits)

lemma fold_sweep_step_fields [simp]:
  "height (fold sweep_step ks a) = height a" "width (fold sweep_step ks a) = width a"
  "moves_made (fold sweep_step ks a) = moves_made a"
  "next_id (fold sweep_step ks a) = next_id a"
  "length (knowledge (fold sweep_step ks a)) = length (knowledge a)"
  "distinct (safes (fold sweep_step ks a)) = distinct (safes a)"
  "distinct (mines (fold sweep_step ks a)) = distinct (mines a)"
  by (induction ks arbitrary: a; simp)+

lemma fold_sweep_step_grows:
  "set (safes a) \<subseteq> set (safes (fold sweep_step ks a))"
  "set (mines a) \<subseteq> set (mines (fold sweep_step ks a))"
  using sweep_step_grows by (induction ks arbitrary: a; fastforce)+

lemma certainty_sweep_fields [simp]:
  "height (certainty_sweep a) = height a" "width (certainty_sweep a) = width a"
  "moves_made (certainty_sweep a) = moves_made a"
  "next_id (certainty_sweep a) = next_id a"
  "length (knowledge (certainty_sweep a)) = length (knowledge a)"
  "distinct (safes (certainty_sweep a)) = distinct (safes a)"
  "distinct (mines (certainty_sweep a)) = distinct (mines a)"
  by (simp_all add: certainty_sweep_def)

lemma certainty_sweep_grows:
  "set (safes a) \<subseteq> set (safes (certainty_sweep a))"
  "set (mines a) \<subseteq> set (mines (certainty_sweep a))"
  by (simp_all add: certainty_sweep_def fold_sweep_step_grows)

lemma deduce_knowledge_fields [simp]:
  "height (deduce_knowledge a) = height a" "width (deduce_knowledge a) = width a"
  "moves_made (deduce_knowledge a) = moves_made a" "mines (deduce_knowledge a) = mines a"
  "safes (deduce_knowledge a) = safes a"
  by (simp_all add: deduce_knowledge_def Let_def)

lemma clean_knowledge_fields [simp]:
  "height (clean_knowledge a) = height a" "width (clean_knowledge a) = width a"
  "moves_made (clean_knowledge a) = moves_made a" "mines (clean_knowledge a) = mines a"
  "safes (clean_knowledge a) = safes a" "next_id (clean_knowledge a) = next_id a"
  "knowledge (clean_knowledge a) = clean_outer 0 (knowledge a)"
  by (simp_all add: clean_knowledge_def)

text \<open>The loop of the branch \<open>count == 0\<close>.\<close>

lemma fold_cond_mark_safe_fields [simp]:
  "height (fold (\<lambda>p a. if p \<notin> set (safes a) then mark_safe p a else a) ps a) = height a"
  "width (fold (\<lambda>p a. if p \<notin> set (safes a) then mark_safe p a else a) ps a) = width a"
  "moves_made (fold (\<lambda>p a. if p \<notin> set (safes a) then mark_safe p a else a) ps a) = moves_made a"
  "mines (fold (\<lambda>p a. if p \<notin> set (safes a) then mark_safe p a else a) ps a) = mines a"
  "next_id (fold (\<lambda>p a. if p \<notin> set (safes a) then mark_safe p a else a) ps a) = next_id a"
  "length (knowledge (fold (\<lambda>p a. if p \<notin> set (safes a) then mark_safe p a else a) ps a)) =
     length (knowledge a)"
  "set (safes (fold (\<lambda>p a. if p \<notin> set (safes a) then mark_safe p a else a) ps a)) =
     set (safes a) \<union> set ps"
  "distinct (safes (fold (\<lambda>p a. if p \<notin> set (safes a) then mark_safe p a else a) ps a)) =
     distinct (safes a)"
  by (induction ps arbitrary: a; auto)+

lemma add_sentence_fields [simp]:
  "height (add_sentence a c n) = height a" "width (add_sentence a c n) = width a"
  "moves_made (add_sentence a c n) = set_add c (moves_made a)"
  "mines (add_sentence a c n) = mines a"
  "distinct (safes (add_sentence a c n)) = distinct (safes a)"
  by (simp_all add: add_sentence_def Let_def)

lemma add_sentence_safes:
  "set (safes (add_sentence a c n)) =
     insert c (set (safes a)) \<union> (if n = 0 then set (get_neighbors a c) else {})"
  by (simp add: add_sentence_def Let_def)

lemma add_knowledge_fields [simp]:
  "height (add_knowledge a c n) = height a" "width (add_knowledge a c n) = width a"
  "moves_made (add_knowledge a c n) = set_add c (moves_made a)"
  "distinct (safes (add_knowledge a c n)) = distinct (safes a)"
  "distinct (mines (add_knowledge a c n)) = distinct (mines a)"
  by (simp_all add: add_knowledge_def Let_def)

lemma add_knowledge_confirmed:
  "mines (add_knowledge a c n) = mines (certainty_sweep (add_sentence a c n))"
  "safes (add_knowledge a c n) = safes (certainty_sweep (add_sentence a c n))"
  by (simp_all add: add_knowledge_def Let_def certainty_sweep_def)

lemma add_knowledge_safes_grow:
  "insert c (set (safes a)) \<subseteq> set (safes (add_knowledge a c n))"
  using certainty_sweep_grows(1) [of "add_sentence a c n"]
  by (auto simp: add_knowledge_confirmed add_sentence_safes)

subsection \<open>The marking loops do not depend on the order\<close>

text \<open>
  Marking the cells of a set one after the other gives, for each statement and for the
  confirmed set, a result that is a function of the set of cells marked, whatever the
  order in which the loop visits them.
\<close>

lemma fold_mark_safe_knowledge:
  "knowledge (fold mark_safe cs a) =
     map (\<lambda>s. s\<lparr>cells := filter (\<lambda>p. p \<notin> set cs) (cells s)\<rparr>) (knowledge a)"
proof (induction cs arbitrary: a)
  case Nil
  show ?case by (simp add: map_idI)
next
  case (Cons c cs)
  have "(\<lambda>s. s\<lparr>cells := filter (\<lambda>p. p \<notin> set cs) (cells s)\<rparr>) (sentence_mark_safe c s) =
        s\<lparr>cells := filter (\<lambda>p. p \<notin> set (c # cs)) (cells s)\<rparr>" for s
  proof (cases "c \<in> set (cells s)")
    case True
    have "filter (\<lambda>p. p \<notin> set cs) (removeAll c (cells s)) =
          filter (\<lambda>p. p \<notin> set (c # cs)) (cells s)"
      by (auto simp: removeAll_filter_not_eq intro!: filter_cong)
    then show ?thesis
      using True by (simp add: sentence_mark_safe_def del: set_simps)
  next
    case False
    have "filter (\<lambda>p. p \<notin> set cs) (cells s) = filter (\<lambda>p. p \<notin> set (c # cs)) (cells s)"
      using False by (auto intro!: filter_cong)
    then show ?thesis
      using False by (simp add: sentence_mark_safe_def del: set_simps)
  qed
  then have "(\<lambda>s. s\<lparr>cells := filter (\<lambda>p. p \<notin> set cs) (cells s)\<rparr>) \<circ> sentence_mark_safe c =
        (\<lambda>s. s\<lparr>cells := filter (\<lambda>p. p \<notin> set (c # cs)) (cells s)\<rparr>)"
    by (simp add: fun_eq_iff del: set_simps)
  then show ?case
    by (simp add: Cons.IH del: set_simps)
qed

lemma fold_mark_mine_knowledge:
  "knowledge (fold mark_mine cs a) =
     map (\<lambda>s. s\<lparr>cells := filter (\<lambda>p. p \<notin> set cs) (cells s),
               count := count s - int (card (set cs \<inter> set (cells s)))\<rparr>) (knowledge a)"
proof (induction cs arbitrary: a)
  case Nil
  show ?case by (simp add: map_idI)
next
  case (Cons c cs)
  have "(\<lambda>s. s\<lparr>cells := filter (\<lambda>p. p \<notin> set cs) (cells s),
               count := count s - int (card (set cs \<inter> set (cells s)))\<rparr>) (sentence_mark_mine c s) =
        s\<lparr>cells := filter (\<lambda>p. p \<notin> set (c # cs)) (cells s),
               count := count s - int (card (set (c # cs) \<inter> set (cells s)))\<rparr>" for s
  proof (cases "c \<in> set (cells s)")
    case True
    have f: "filter (\<lambda>p. p \<notin> set cs) (removeAll c (cells s)) =
             filter (\<lambda>p. p \<notin> set (c # cs)) (cells s)"
      by (auto simp: removeAll_filter_not_eq intro!: filter_cong)
    have "set (c # cs) \<inter> set (cells s) = insert c (set cs \<inter> (set (cells s) - {c}))"
      using True by auto
    moreover have "c \<notin> set cs \<inter> (set (cells s) - {c})" by simp
    ultimately have "card (set (c # cs) \<inter> set (cells s)) =
                     Suc (card (set cs \<inter> (set (cells s) - {c})))"
      by (simp del: set_simps Int_insert_left Int_Diff)
    then show ?thesis
      using True by (simp add: sentence_mark_mine_def f del: set_simps)
  next
    case False
    have f: "filter (\<lambda>p. p \<notin> set cs) (cells s) = filter (\<lambda>p. p \<notin> set (c # cs)) (cells s)"
      using False by (auto intro!: filter_cong)
    have "set (c # cs) \<inter> set (cells s) = set cs \<inter> set (cells s)"
      using False by auto
    then show ?thesis
      using False by (simp add: sentence_mark_mine_def f del: set_simps)
  qed
  then have "(\<lambda>s. s\<lparr>cells := filter (\<lambda>p. p \<notin> set cs) (cells s),
               count := count s - int (card (set cs \<inter> set (cells s)))\<rparr>) \<circ> sentence_mark_mine c =
        (\<lambda>s. s\<lparr>cells := filter (\<lambda>p. p \<notin> set (c # cs)) (cells s),
               count := count s - int (card (set (c # cs) \<inter> set (cells s)))\<rparr>)"
    by (simp add: fun_eq_iff del: set_simps)
  then show ?case
    by (simp add: Cons.IH del: set_simps)
qed

subsection \<open>Probed cells are confirmed safe\<close>

lemma reachable_moves_safes:
  "reachable a \<Longrightarrow>
     set (moves_made a) \<subseteq> set (safes a) \<and> distinct (moves_made a) \<and> distinct (safes a)"
proof (induction rule: reachable.induct)
  case (r_init h w)
  show ?case by (simp add: init_def)
next
  case (r_add_knowledge a c n)
  then show ?case using add_knowledge_safes_grow [of c a n] by auto
qed auto

lemma same_length_same_set:
  assumes "set xs \<subseteq> set ys" "distinct xs" "distinct ys" "length ys = length xs"
  shows "set ys = set xs"
proof -
  have "card (set xs) = card (set ys)"
    using assms by (simp add: distinct_card)
  then show ?thesis
    using assms(1) by (metis card_subset_eq List.finite_set)
qed

lemma find_Some_mem: "find P xs = Some x \<Longrightarrow> x \<in> set xs \<and> P x"
  by (induction xs) (auto split: if_splits)

subsection \<open>Subset deduction\<close>

lemma set_symmetric_difference:
  "set (symmetric_difference xs ys) = (set xs - set ys) \<union> (set ys - set xs)"
  by (auto simp: symmetric_difference_def)

lemma deductions_mem:
  "d \<in> set (deductions K) \<longleftrightarrow>
     (\<exists>A \<in> set K. \<exists>B \<in> set K. set (cells B) \<noteq> set (cells A) \<and> cells B \<noteq> []
        \<and> set (cells B) \<subseteq> set (cells A)
        \<and> d = (symmetric_difference (cells A) (cells B), count A - count B))"
  unfolding deductions_def set_concat set_map
  by (simp split: if_splits) blast

lemma map_enumerate_Sentence:
  "map (\<lambda>d. (set (cells d), count d))
     (map (\<lambda>(k, (cs, n)). Sentence (i + k) cs n) (enumerate j ds)) =
   map (\<lambda>(cs, n). (set cs, n)) ds"
  by (induction ds arbitrary: j) (auto simp: Sentence_def)

lemma new_statements_image:
  "(\<lambda>d. (set (cells d), count d)) `
     set (map (\<lambda>(k, (cs, n)). Sentence (i + k) cs n) (enumerate j ds)) =
   (\<lambda>(cs, n). (set cs, n)) ` set ds"
proof -
  have "set (map (\<lambda>d. (set (cells d), count d))
          (map (\<lambda>(k, (cs, n)). Sentence (i + k) cs n) (enumerate j ds))) =
        set (map (\<lambda>(cs, n). (set cs, n)) ds)"
    by (simp only: map_enumerate_Sentence)
  then show ?thesis by (simp only: set_map)
qed

lemma deductions_image:
  "(\<lambda>(cs, n). (set cs, n)) ` set (deductions K) =
     {(set (cells A) - set (cells B), count A - count B) | A B.
        A \<in> set K \<and> B \<in> set K \<and> set (cells B) \<noteq> {} \<and> set (cells B) \<subset> set (cells A)}"
  (is "?L = ?R")
proof (rule set_eqI)
  fix x
  show "x \<in> ?L \<longleftrightarrow> x \<in> ?R"
  proof
    assume "x \<in> ?L"
    then obtain d where d: "d \<in> set (deductions K)" and x: "x = (set (fst d), snd d)"
      by (auto simp: case_prod_beta)
    from d obtain A B where ab: "A \<in> set K" "B \<in> set K"
      "set (cells B) \<noteq> set (cells A)" "cells B \<noteq> []" "set (cells B) \<subseteq> set (cells A)"
      and dd: "d = (symmetric_difference (cells A) (cells B), count A - count B)"
      unfolding deductions_mem by blast
    have "set (symmetric_difference (cells A) (cells B)) = set (cells A) - set (cells B)"
      using ab(5) by (auto simp: set_symmetric_difference)
    then have "x = (set (cells A) - set (cells B), count A - count B)"
      using x dd by simp
    moreover have "set (cells B) \<noteq> {}" "set (cells B) \<subset> set (cells A)"
      using ab by auto
    ultimately show "x \<in> ?R" using ab(1,2) by blast
  next
    assume "x \<in> ?R"
    then obtain A B where ab: "A \<in> set K" "B \<in> set K"
      "set (cells B) \<noteq> {}" "set (cells B) \<subset> set (cells A)"
      and x: "x = (set (cells A) - set (cells B), count A - count B)"
      by blast
    have e: "set (symmetric_difference (cells A) (cells B)) = set (cells A) - set (cells B)"
      using ab(4) by (auto simp: set_symmetric_difference)
    have "set (cells B) \<noteq> set (cells A)" "cells B \<noteq> []" "set (cells B) \<subseteq> set (cells A)"
      using ab(3,4) by auto
    then have "(symmetric_difference (cells A) (cells B), count A - count B) \<in> set (deductions K)"
      unfolding deductions_mem using ab(1,2) by blast
    then have "(\<lambda>(cs, n). (set cs, n)) (symmetric_difference (cells A) (cells B), count A - count B)
                 \<in> ?L"
      by (rule imageI)
    then show "x \<in> ?L"
      using x e by simp
  qed
qed

subsection \<open>The random move\<close>

lemma random_loop_Returned:
  "random_loop a ds = Returned r \<Longrightarrow>
     \<exists>c. r = Some c \<and> c \<in> set ds \<and> c \<notin> set (moves_made a) \<and> c \<notin> set (mines a)"
  by (induction ds) (auto split: if_splits)

lemma random_loop_first:
  "random_loop a ds = Returned r \<Longrightarrow>
     \<exists>c pre post. r = Some c \<and> ds = pre @ c # post
       \<and> (\<forall>d \<in> set pre. d \<in> set (moves_made a) \<or> d \<in> set (mines a))"
proof (induction ds)
  case Nil
  then show ?case by simp
next
  case (Cons m ds)
  show ?case
  proof (cases "m \<notin> set (moves_made a) \<and> m \<notin> set (mines a)")
    case True
    then have "r = Some m" using Cons.prems by simp
    then have "r = Some m \<and> m # ds = [] @ m # ds
       \<and> (\<forall>d \<in> set []. d \<in> set (moves_made a) \<or> d \<in> set (mines a))"
      by simp
    then show ?thesis by blast
  next
    case False
    then have "random_loop a ds = Returned r" using Cons.prems by auto
    from Cons.IH [OF this] obtain c pre post where
      "r = Some c" "ds = pre @ c # post"
      "\<forall>d \<in> set pre. d \<in> set (moves_made a) \<or> d \<in> set (mines a)"
      by blast
    then have "r = Some c \<and> m # ds = (m # pre) @ c # post
       \<and> (\<forall>d \<in> set (m # pre). d \<in> set (moves_made a) \<or> d \<in> set (mines a))"
      using False by auto
    then show ?thesis by blast
  qed
qed

lemma random_loop_finds:
  "\<exists>c \<in> set ds. c \<notin> set (moves_made a) \<and> c \<notin> set (mines a) \<Longrightarrow>
     \<exists>c. random_loop a ds = Returned (Some c)"
  by (induction ds) auto

lemma random_loop_no_error: "random_loop a ds \<noteq> ValueError"
  by (induction ds) auto

lemma grid_card:
  assumes "0 \<le> height a" "0 \<le> width a"
  shows "int (card {p. in_grid a p}) = width a * height a"
proof -
  have "{p. in_grid a p} = {0 ..< height a} \<times> {0 ..< width a}"
    by (auto simp: in_grid_def)
  then have "card {p. in_grid a p} = nat (height a) * nat (width a)"
    by (simp add: card_cartesian_product)
  then show ?thesis
    using assms by (simp add: nat_mult_distrib mult.commute)
qed

lemma finite_grid: "finite {p. in_grid a p}"
proof -
  have "{p. in_grid a p} = {0 ..< height a} \<times> {0 ..< width a}"
    by (auto simp: in_grid_def)
  then show ?thesis by simp
qed

lemma free_cell_exists:
  assumes d: "distinct (moves_made a)" "distinct (mines a)"
    and disj: "set (moves_made a) \<inter> set (mines a) = {}"
    and grid: "\<forall>c \<in> set (moves_made a) \<union> set (mines a). in_grid a c"
    and pos: "0 < height a" "0 < width a"
    and ne: "int (length (moves_made a)) \<noteq> width a * height a - int (length (mines a))"
  shows "\<exists>c. in_grid a c \<and> c \<notin> set (moves_made a) \<and> c \<notin> set (mines a)"
proof (rule ccontr)
  assume "\<not> ?thesis"
  then have "{p. in_grid a p} \<subseteq> set (moves_made a) \<union> set (mines a)"
    by blast
  with grid have "{p. in_grid a p} = set (moves_made a) \<union> set (mines a)"
    by blast
  then have "card {p. in_grid a p} = card (set (moves_made a)) + card (set (mines a))"
    using disj by (simp add: card_Un_disjoint)
  then have "int (card {p. in_grid a p}) = int (length (moves_made a)) + int (length (mines a))"
    using d by (simp add: distinct_card)
  then show False
    using ne grid_card [of a] pos by simp
qed

subsection \<open>Statements stay true of the board\<close>

lemma sentence_mark_safe_sound:
  assumes "c \<notin> G" "count s = int (card (set (cells s) \<inter> G))"
  shows "count (sentence_mark_safe c s) = int (card (set (cells (sentence_mark_safe c s)) \<inter> G))"
proof -
  have "(set (cells s) - {c}) \<inter> G = set (cells s) \<inter> G"
    using assms(1) by blast
  then show ?thesis
    using assms(2) by (simp add: sentence_mark_safe_def)
qed

lemma sentence_mark_mine_sound:
  assumes "c \<in> G" "count s = int (card (set (cells s) \<inter> G))"
  shows "count (sentence_mark_mine c s) = int (card (set (cells (sentence_mark_mine c s)) \<inter> G))"
proof (cases "c \<in> set (cells s)")
  case True
  have e: "(set (cells s) - {c}) \<inter> G = (set (cells s) \<inter> G) - {c}"
    by blast
  have m: "c \<in> set (cells s) \<inter> G"
    using True assms(1) by simp
  have "card ((set (cells s) \<inter> G) - {c}) = card (set (cells s) \<inter> G) - 1"
    using m by (simp add: card_Diff_singleton)
  moreover have "0 < card (set (cells s) \<inter> G)"
    using m by (simp add: card_gt_0_iff) blast
  ultimately have "int (card ((set (cells s) - {c}) \<inter> G)) = int (card (set (cells s) \<inter> G)) - 1"
    unfolding e by simp
  then show ?thesis
    using True assms(2) by (simp add: sentence_mark_mine_def)
next
  case False
  then show ?thesis using assms(2) by (simp add: sentence_mark_mine_def)
qed

lemma sound_mark_safe: "c \<notin> G \<Longrightarrow> sound G a \<Longrightarrow> sound G (mark_safe c a)"
  by (auto simp: sound_def list_all_iff sentence_mark_safe_sound)

lemma sound_mark_mine: "c \<in> G \<Longrightarrow> sound G a \<Longrightarrow> sound G (mark_mine c a)"
  by (auto simp: sound_def list_all_iff sentence_mark_mine_sound)

lemma sound_fold_mark_safe:
  "set cs \<inter> G = {} \<Longrightarrow> sound G a \<Longrightarrow> sound G (fold mark_safe cs a)"
  by (induction cs arbitrary: a) (auto simp: sound_mark_safe)

lemma sound_fold_mark_mine:
  "set cs \<subseteq> G \<Longrightarrow> sound G a \<Longrightarrow> sound G (fold mark_mine cs a)"
  by (induction cs arbitrary: a) (auto simp: sound_mark_mine)

lemma known_safes_sound:
  assumes "count s = int (card (set (cells s) \<inter> G))" "known_safes s = Some cs"
  shows "set cs \<inter> G = {}"
  using assms by (auto simp: known_safes_def split: if_splits)

lemma known_mines_sound:
  assumes "count s = int (card (set (cells s) \<inter> G))" "known_mines s = Some ms"
  shows "set ms \<subseteq> G"
proof -
  from assms have ms: "ms = cells s" and len: "length (cells s) = card (set (cells s) \<inter> G)"
    by (auto simp: known_mines_def split: if_splits)
  have "card (set (cells s) \<inter> G) \<le> card (set (cells s))"
    by (simp add: card_mono)
  moreover have "card (set (cells s)) \<le> length (cells s)"
    by (rule card_length)
  ultimately have "card (set (cells s) \<inter> G) = card (set (cells s))"
    using len by simp
  then have "set (cells s) \<inter> G = set (cells s)"
    by (intro card_subset_eq) auto
  then show ?thesis using ms by blast
qed

lemma sound_nth:
  "sound G a \<Longrightarrow> k < length (knowledge a) \<Longrightarrow>
     count (knowledge a ! k) = int (card (set (cells (knowledge a ! k)) \<inter> G))"
  by (simp add: sound_def list_all_length)

lemma sound_sweep_step:
  assumes "k < length (knowledge a)" "sound G a"
  shows "sound G (sweep_step k a)"
proof -
  define a' where "a' = (case known_safes (knowledge a ! k) of
                  Some cs \<Rightarrow> if cs \<noteq> [] then fold mark_safe cs a else a
                | None \<Rightarrow> a)"
  have s': "sound G a'"
    using assms known_safes_sound [OF sound_nth [OF assms(2,1)]]
    by (auto simp: a'_def sound_fold_mark_safe split: option.splits)
  have k': "k < length (knowledge a')"
    using assms(1) by (simp add: a'_def split: option.splits)
  have "sound G (case known_mines (knowledge a' ! k) of
           Some ms \<Rightarrow> if ms \<noteq> [] then fold mark_mine ms a' else a'
         | None \<Rightarrow> a')"
    using s' known_mines_sound [OF sound_nth [OF s' k']]
    by (auto simp: sound_fold_mark_mine split: option.splits)
  then show ?thesis
    unfolding sweep_step_def Let_def a'_def .
qed

lemma sound_fold_sweep_step:
  "\<forall>k \<in> set ks. k < length (knowledge a) \<Longrightarrow> sound G a \<Longrightarrow> sound G (fold sweep_step ks a)"
  by (induction ks arbitrary: a) (auto simp: sound_sweep_step)

lemma sound_certainty_sweep: "sound G a \<Longrightarrow> sound G (certainty_sweep a)"
  by (simp add: certainty_sweep_def sound_fold_sweep_step)


lemma in_set_enumerate_snd: "(k, x) \<in> set (enumerate n xs) \<Longrightarrow> x \<in> set xs"
  by (induction xs arbitrary: n) auto

lemma sound_deduce_knowledge:
  assumes "sound G a"
  shows "sound G (deduce_knowledge a)"
proof -
  have new: "count (Sentence i cs n) = int (card (set (cells (Sentence i cs n)) \<inter> G))"
    if "(cs, n) \<in> set (deductions (knowledge a))" for i cs n
  proof -
    from that obtain A B :: sentence where ab: "A \<in> set (knowledge a)" "B \<in> set (knowledge a)"
      "set (cells B) \<subseteq> set (cells A)"
      and d: "cs = symmetric_difference (cells A) (cells B)" "n = count A - count B"
      unfolding deductions_mem by blast
    have cA: "count A = int (card (set (cells A) \<inter> G))"
      and cB: "count B = int (card (set (cells B) \<inter> G))"
      using assms ab(1,2) by (auto simp: sound_def list_all_iff)
    have "set cs = set (cells A) - set (cells B)"
      using ab(3) d(1) by (auto simp: set_symmetric_difference)
    then have "set cs \<inter> G = (set (cells A) \<inter> G) - (set (cells B) \<inter> G)"
      by blast
    moreover have "set (cells B) \<inter> G \<subseteq> set (cells A) \<inter> G"
      using ab(3) by blast
    ultimately have "card (set cs \<inter> G) = card (set (cells A) \<inter> G) - card (set (cells B) \<inter> G)"
      by (simp add: card_Diff_subset)
    moreover have "card (set (cells B) \<inter> G) \<le> card (set (cells A) \<inter> G)"
      using ab(3) by (intro card_mono) auto
    ultimately show ?thesis
      using cA cB d(2) by (simp add: Sentence_def)
  qed
  have "list_all (\<lambda>s. count s = int (card (set (cells s) \<inter> G)))
          (map (\<lambda>(k, cs, n). Sentence (next_id a + k) cs n)
             (enumerate 0 (deductions (knowledge a))))"
    using new by (auto simp: list_all_iff dest: in_set_enumerate_snd)
  then show ?thesis
    using assms by (simp add: sound_def deduce_knowledge_def Let_def)
qed

lemma set_list_remove: "set (list_remove x K) \<subseteq> set K"
  by (induction K) auto

lemma set_clean_inner: "set (clean_inner s j K) \<subseteq> set K"
proof (induction s j K rule: clean_inner.induct)
  case (1 s j K)
  show ?case
  proof (cases "j < length K")
    case True
    then show ?thesis
      using "1.IH" [OF True refl refl] set_list_remove [of "K ! j" K]
      by (subst clean_inner.simps) (auto simp: Let_def split: if_splits)
  next
    case False
    then show ?thesis by (subst clean_inner.simps) simp
  qed
qed

lemma set_clean_outer: "set (clean_outer i K) \<subseteq> set K"
proof (induction i K rule: clean_outer.induct)
  case (1 i K)
  show ?case
  proof (cases "i < length K")
    case True
    then show ?thesis
      using "1.IH" [OF True refl refl] set_list_remove [of "K ! i" K]
        set_clean_inner [of "K ! i" 0 K] set_clean_inner [of "K ! i" 0 "list_remove (K ! i) K"]
      by (subst clean_outer.simps) (auto simp: Let_def split: if_splits)
  next
    case False
    then show ?thesis by (subst clean_outer.simps) simp
  qed
qed

lemma sound_clean_knowledge: "sound G a \<Longrightarrow> sound G (clean_knowledge a)"
  using set_clean_outer [of 0 "knowledge a"]
  by (auto simp: sound_def list_all_iff)

lemma sound_fold_cond_mark_safe:
  "set ps \<inter> G = {} \<Longrightarrow> sound G a \<Longrightarrow>
     sound G (fold (\<lambda>p a. if p \<notin> set (safes a) then mark_safe p a else a) ps a)"
  by (induction ps arbitrary: a) (auto simp: sound_mark_safe)

lemma sound_moves_made_update: "sound G (a\<lparr>moves_made := ms\<rparr>) = sound G a"
  by (simp add: sound_def)

lemma sound_add_sentence:
  assumes c: "c \<notin> G" and n: "n = int (card (set (get_neighbors a c) \<inter> G))" and s: "sound G a"
  shows "sound G (add_sentence a c n)"
proof -
  define a2 where "a2 = mark_safe c (a\<lparr>moves_made := set_add c (moves_made a)\<rparr>)"
  have s2: "sound G a2"
    unfolding a2_def using c s by (simp add: sound_mark_safe sound_moves_made_update)
  have nb: "get_neighbors a2 c = get_neighbors a c"
    by (simp add: a2_def)
  show ?thesis
  proof (cases "0 < n")
    case True
    have "set (safes a2) \<inter> G = {}"
      using s2 by (simp add: sound_def)
    then have "set (filter (\<lambda>p. p \<notin> set (safes a2)) (get_neighbors a c)) \<inter> G =
               set (get_neighbors a c) \<inter> G"
      by auto
    then have "count (Sentence (next_id a2) (filter (\<lambda>p. p \<notin> set (safes a2)) (get_neighbors a c)) n)
      = int (card (set (cells (Sentence (next_id a2)
              (filter (\<lambda>p. p \<notin> set (safes a2)) (get_neighbors a c)) n)) \<inter> G))"
      using n by (simp add: Sentence_def)
    then have "sound G (a2\<lparr>knowledge := knowledge a2 @
                           [Sentence (next_id a2)
                              (filter (\<lambda>p. p \<notin> set (safes a2)) (get_neighbors a c)) n],
                        next_id := Suc (next_id a2)\<rparr>)"
      using s2 by (simp add: sound_def)
    then show ?thesis
      using True unfolding add_sentence_def Let_def a2_def [symmetric] nb by simp
  next
    case False
    show ?thesis
    proof (cases "n = 0")
      case True
      then have "set (get_neighbors a c) \<inter> G = {}"
        using n by simp
      then have "sound G (fold (\<lambda>p a. if p \<notin> set (safes a) then mark_safe p a else a)
                   (get_neighbors a c) a2)"
        using s2 by (rule sound_fold_cond_mark_safe)
      then show ?thesis
        using True unfolding add_sentence_def Let_def a2_def [symmetric] nb by simp
    next
      case False
      with \<open>\<not> 0 < n\<close> show ?thesis
        using s2 unfolding add_sentence_def Let_def a2_def [symmetric] nb by simp
    qed
  qed
qed

lemma sound_add_knowledge:
  assumes "c \<notin> G" "n = int (card (set (get_neighbors a c) \<inter> G))" "sound G a"
  shows "sound G (add_knowledge a c n)"
  using sound_add_sentence [OF assms]
  by (simp add: add_knowledge_def Let_def sound_clean_knowledge sound_deduce_knowledge
      sound_certainty_sweep)

lemma fold_count:
  "fold (\<lambda>p n. if Q p then n + 1 else n) xs (k :: int) = k + int (length (filter Q xs))"
  by (induction xs arbitrary: k) auto

lemma board_positions_mem:
  "(x, y) \<in> set (concat (map (\<lambda>i. map (\<lambda>j. (i, j)) [cj - 1, cj, cj + 1 :: int])
                     [ci - 1, ci, ci + 1 :: int]))
     \<longleftrightarrow> ci - 1 \<le> x \<and> x \<le> ci + 1 \<and> cj - 1 \<le> y \<and> y \<le> cj + 1"
proof -
  have x: "ci - 1 \<le> x \<and> x \<le> ci + 1 \<longleftrightarrow> x = ci - 1 \<or> x = ci \<or> x = ci + 1" by arith
  have y: "cj - 1 \<le> y \<and> y \<le> cj + 1 \<longleftrightarrow> y = cj - 1 \<or> y = cj \<or> y = cj + 1" by arith
  have "(x, y) \<in> set (concat (map (\<lambda>i. map (\<lambda>j. (i, j)) [cj - 1, cj, cj + 1 :: int])
                     [ci - 1, ci, ci + 1 :: int]))
     \<longleftrightarrow> (x = ci - 1 \<or> x = ci \<or> x = ci + 1) \<and> (y = cj - 1 \<or> y = cj \<or> y = cj + 1)"
    by simp blast
  then show ?thesis using x y by blast
qed

lemma nearby_mines_card:
  assumes c: "\<not> is_mine g c" and h: "height a = g_height g" and w: "width a = g_width g"
  shows "nearby_mines g c = int (card (set (get_neighbors a c) \<inter> set (g_mines g)))"
proof -
  obtain ci cj where cc: "c = (ci, cj)" by (cases c)
  define P where "P = concat (map (\<lambda>i. map (\<lambda>j. (i, j)) [cj - 1, cj, cj + 1])
                     [ci - 1, ci, ci + 1])"
  define Q where "Q = (\<lambda>p. p \<noteq> c \<and> in_grid a p \<and> is_mine g p)"
  have dP: "distinct P"
    unfolding P_def by simp
  have f: "(\<lambda>p n.
            if p = c then n
            else if 0 \<le> fst p \<and> fst p < g_height g \<and> 0 \<le> snd p \<and> snd p < g_width g
                 then (if is_mine g p then n + 1 else n)
                 else n) = (\<lambda>p n :: int. if Q p then n + 1 else n)"
    by (auto simp: fun_eq_iff Q_def in_grid_def h w)
  have "nearby_mines g c = fold (\<lambda>p n :: int. if Q p then n + 1 else n) P 0"
    unfolding nearby_mines_def f by (simp only: cc fst_conv snd_conv P_def)
  then have "nearby_mines g c = int (length (filter Q P))"
    unfolding fold_count by simp
  also have "\<dots> = int (card (set (filter Q P)))"
    using distinct_card [OF distinct_filter [OF dP, of Q]] by simp
  also have "set (filter Q P) = set (get_neighbors a c) \<inter> set (g_mines g)"
  proof (rule set_eqI)
    fix p :: cell
    obtain x y where p: "p = (x, y)" by (cases p)
    show "p \<in> set (filter Q P) \<longleftrightarrow> p \<in> set (get_neighbors a c) \<inter> set (g_mines g)"
      using c unfolding p cc set_filter P_def mem_Collect_eq board_positions_mem Int_iff
        get_neighbors_mem Q_def is_mine_def
      by blast
  qed
  finally show ?thesis .
qed

lemma sound_init: "sound G (init h w)"
  by (simp add: sound_def init_def)

lemma sound_fold_add_knowledge:
  assumes "sound (set (g_mines g)) a" "height a = g_height g" "width a = g_width g"
    and "\<forall>c \<in> set obs. \<not> is_mine g c"
  shows "sound (set (g_mines g)) (fold (\<lambda>c a. add_knowledge a c (nearby_mines g c)) obs a)"
  using assms
proof (induction obs arbitrary: a)
  case Nil
  then show ?case by simp
next
  case (Cons c obs)
  have "sound (set (g_mines g)) (add_knowledge a c (nearby_mines g c))"
    using Cons.prems nearby_mines_card [of g c a]
    by (intro sound_add_knowledge) (auto simp: is_mine_def)
  then show ?case
    using Cons.prems by (auto intro!: Cons.IH)
qed

subsection \<open>Statements hold no confirmed safe cell\<close>

lemma set_cells_sentence_mark [simp]:
  "set (cells (sentence_mark_safe c s)) = set (cells s) - {c}"
  "set (cells (sentence_mark_mine c s)) = set (cells s) - {c}"
  by (auto simp: sentence_mark_safe_def sentence_mark_mine_def)

lemma safe_reduced_mark_safe: "safe_reduced a \<Longrightarrow> safe_reduced (mark_safe c a)"
  by (auto simp: safe_reduced_def list_all_iff)

lemma safe_reduced_mark_mine: "safe_reduced a \<Longrightarrow> safe_reduced (mark_mine c a)"
  by (auto simp: safe_reduced_def list_all_iff)

lemma safe_reduced_fold_mark_safe: "safe_reduced a \<Longrightarrow> safe_reduced (fold mark_safe cs a)"
  by (induction cs arbitrary: a) (auto simp: safe_reduced_mark_safe)

lemma safe_reduced_fold_mark_mine: "safe_reduced a \<Longrightarrow> safe_reduced (fold mark_mine cs a)"
  by (induction cs arbitrary: a) (auto simp: safe_reduced_mark_mine)

lemma safe_reduced_fold_cond_mark_safe:
  "safe_reduced a \<Longrightarrow>
     safe_reduced (fold (\<lambda>p a. if p \<notin> set (safes a) then mark_safe p a else a) ps a)"
  by (induction ps arbitrary: a) (auto simp: safe_reduced_mark_safe)

lemma safe_reduced_sweep_step: "safe_reduced a \<Longrightarrow> safe_reduced (sweep_step k a)"
  by (auto simp: sweep_step_def Let_def safe_reduced_fold_mark_safe safe_reduced_fold_mark_mine
      split: option.splits)

lemma safe_reduced_certainty_sweep: "safe_reduced a \<Longrightarrow> safe_reduced (certainty_sweep a)"
proof -
  have "safe_reduced a \<Longrightarrow> safe_reduced (fold sweep_step ks a)" for ks
    by (induction ks arbitrary: a) (auto simp: safe_reduced_sweep_step)
  then show "safe_reduced a \<Longrightarrow> safe_reduced (certainty_sweep a)"
    by (simp add: certainty_sweep_def)
qed

lemma safe_reduced_deduce_knowledge:
  assumes "safe_reduced a"
  shows "safe_reduced (deduce_knowledge a)"
proof -
  have new: "set (cells (Sentence i cs n)) \<inter> set (safes a) = {}"
    if "(cs, n) \<in> set (deductions (knowledge a))" for i cs n
  proof -
    from that obtain A B :: sentence where ab: "A \<in> set (knowledge a)" "B \<in> set (knowledge a)"
      and d: "cs = symmetric_difference (cells A) (cells B)"
      unfolding deductions_mem by blast
    have "set (cells A) \<inter> set (safes a) = {}" "set (cells B) \<inter> set (safes a) = {}"
      using assms ab by (auto simp: safe_reduced_def list_all_iff)
    then show ?thesis
      unfolding d by (auto simp: Sentence_def set_symmetric_difference)
  qed
  have "list_all (\<lambda>s. set (cells s) \<inter> set (safes a) = {})
          (map (\<lambda>(k, cs, n). Sentence (next_id a + k) cs n)
             (enumerate 0 (deductions (knowledge a))))"
    unfolding list_all_iff
  proof
    fix s
    assume "s \<in> set (map (\<lambda>(k, cs, n). Sentence (next_id a + k) cs n)
             (enumerate 0 (deductions (knowledge a))))"
    then obtain k cs n where "(k, cs, n) \<in> set (enumerate 0 (deductions (knowledge a)))"
      and s: "s = Sentence (next_id a + k) cs n"
      by auto
    then have "(cs, n) \<in> set (deductions (knowledge a))"
      by (auto dest: in_set_enumerate_snd)
    then show "set (cells s) \<inter> set (safes a) = {}"
      unfolding s by (rule new)
  qed
  then show ?thesis
    using assms by (simp add: safe_reduced_def deduce_knowledge_def Let_def)
qed

lemma safe_reduced_clean_knowledge: "safe_reduced a \<Longrightarrow> safe_reduced (clean_knowledge a)"
  using set_clean_outer [of 0 "knowledge a"]
  by (auto simp: safe_reduced_def list_all_iff)

lemma safe_reduced_add_sentence:
  assumes "safe_reduced a"
  shows "safe_reduced (add_sentence a c n)"
proof -
  define a2 where "a2 = mark_safe c (a\<lparr>moves_made := set_add c (moves_made a)\<rparr>)"
  have "safe_reduced (a\<lparr>moves_made := set_add c (moves_made a)\<rparr>)"
    using assms by (simp add: safe_reduced_def)
  then have s2: "safe_reduced a2"
    unfolding a2_def by (rule safe_reduced_mark_safe)
  have nb: "get_neighbors a2 c = get_neighbors a c"
    by (simp add: a2_def)
  have s3: "safe_reduced (a2\<lparr>knowledge := knowledge a2 @
                           [Sentence (next_id a2)
                              (filter (\<lambda>p. p \<notin> set (safes a2)) (get_neighbors a c)) n],
                        next_id := Suc (next_id a2)\<rparr>)"
    using s2 by (auto simp: safe_reduced_def Sentence_def)
  show ?thesis
    unfolding add_sentence_def Let_def a2_def [symmetric] nb
    using s2 s3 by (auto simp: safe_reduced_fold_cond_mark_safe)
qed

lemma safe_reduced_add_knowledge: "safe_reduced a \<Longrightarrow> safe_reduced (add_knowledge a c n)"
  by (simp add: add_knowledge_def Let_def safe_reduced_add_sentence safe_reduced_certainty_sweep
      safe_reduced_deduce_knowledge safe_reduced_clean_knowledge)

lemma reachable_safe_reduced: "reachable a \<Longrightarrow> safe_reduced a"
proof (induction rule: reachable.induct)
  case (r_init h w)
  show ?case by (simp add: safe_reduced_def init_def)
qed (simp_all add: safe_reduced_add_knowledge safe_reduced_mark_safe safe_reduced_mark_mine
      safe_reduced_deduce_knowledge safe_reduced_clean_knowledge)

lemma safes_not_in_statements:
  "reachable a \<Longrightarrow> s \<in> set (knowledge a) \<Longrightarrow> p \<in> set (safes a) \<Longrightarrow> p \<notin> set (cells s)"
  using reachable_safe_reduced [of a] by (auto simp: safe_reduced_def list_all_iff)

section \<open>The properties of the specification\<close>

subsection \<open>C3: the neighbour computation\<close>




subsection \<open>C10: the new statement leaves out the ingested cell\<close>

text \<open>
  C10: for \<open>count > 0\<close>, \<open>add_knowledge\<close> appends one statement; its cells are the
  neighbours that are not confirmed safe once the ingested cell has been marked safe,
  so the ingested cell is not among them although \<open>get_neighbors\<close> lists it. Nor is it
  a cell of any statement when the call returns, if no statement held a confirmed
  safe cell before.
\<close>

theorem add_sentence_excludes_cell:
  assumes "0 < n"
  shows "length (knowledge (add_sentence a c n)) = Suc (length (knowledge a))
       \<and> c \<notin> set (cells (last (knowledge (add_sentence a c n))))
       \<and> set (cells (last (knowledge (add_sentence a c n)))) =
           set (get_neighbors a c) - insert c (set (safes a))
       \<and> count (last (knowledge (add_sentence a c n))) = n
       \<and> (in_grid a c \<longrightarrow> c \<in> set (get_neighbors a c))
       \<and> (safe_reduced a \<longrightarrow> (\<forall>s \<in> set (knowledge (add_knowledge a c n)). c \<notin> set (cells s)))"
proof -
  have "c \<notin> set (cells s)"
    if r: "safe_reduced a" and s: "s \<in> set (knowledge (add_knowledge a c n))" for s
  proof -
    have "safe_reduced (add_knowledge a c n)"
      using r by (rule safe_reduced_add_knowledge)
    moreover have "c \<in> set (safes (add_knowledge a c n))"
      using add_knowledge_safes_grow [of c a n] by simp
    ultimately show ?thesis
      using s by (auto simp: safe_reduced_def list_all_iff)
  qed
  then show ?thesis
    using assms get_neighbors_self [of a c]
    by (auto simp: add_sentence_def Let_def Sentence_def)
qed

theorem add_sentence_excludes_cell_witness:
  "(0 :: int) < 1 \<and> in_grid (init 1 2) (0, 0) \<and> safe_reduced (init 1 2)
   \<and> (0, 0) \<in> set (get_neighbors (init 1 2) (0, 0))
   \<and> cells (last (knowledge (add_sentence (init 1 2) (0, 0) 1))) = [(0, 1)]
   \<and> (0, 0) \<notin> set (cells (last (knowledge (add_sentence (init 1 2) (0, 0) 1))))"
proof -
  have e: "cells (last (knowledge (add_sentence (init 1 2) (0, 0) 1))) = [(0, 1)]"
    "in_grid (init 1 2) (0, 0)" "safe_reduced (init 1 2)"
    by code_simp+
  show ?thesis
    using e add_sentence_excludes_cell [of 1 "init 1 2" "(0, 0)"] by simp
qed

subsection \<open>C9: every probed cell is confirmed safe\<close>

text \<open>
  C9: in every state the agent can reach, \<open>moves_made\<close> is included in \<open>safes\<close>; the cell
  \<open>add_knowledge\<close> records as a move is in \<open>safes\<close> after the same call; no method
  removes a cell from \<open>safes\<close>; hence equal lengths of the two sets mean equal sets.
\<close>

theorem moves_made_subset_safes:
  assumes "reachable a"
  shows "set (moves_made a) \<subseteq> set (safes a)
       \<and> (length (safes a) = length (moves_made a) \<longrightarrow> set (safes a) = set (moves_made a))
       \<and> c \<in> set (moves_made (add_knowledge a c n))
       \<and> c \<in> set (safes (add_knowledge a c n))
       \<and> set (safes a) \<subseteq> set (safes (add_knowledge a c n))
       \<and> set (safes a) \<subseteq> set (safes (mark_safe p a))
       \<and> safes (mark_mine p a) = safes a
       \<and> safes (deduce_knowledge a) = safes a
       \<and> safes (clean_knowledge a) = safes a"
  using reachable_moves_safes [OF assms] add_knowledge_safes_grow [of c a n]
    same_length_same_set [of "moves_made a" "safes a"]
  by auto

theorem moves_made_subset_safes_witness:
  "reachable (add_knowledge (init 1 2) (0, 0) 1)
   \<and> moves_made (add_knowledge (init 1 2) (0, 0) 1) = [(0, 0)]
   \<and> safes (add_knowledge (init 1 2) (0, 0) 1) = [(0, 0)]
   \<and> set (moves_made (add_knowledge (init 1 2) (0, 0) 1))
        \<subseteq> set (safes (add_knowledge (init 1 2) (0, 0) 1))"
proof -
  have r: "reachable (add_knowledge (init 1 2) (0, 0) 1)"
    by (intro reachable.intros)
  have e: "moves_made (add_knowledge (init 1 2) (0, 0) 1) = [(0, 0)]"
      "safes (add_knowledge (init 1 2) (0, 0) 1) = [(0, 0)]"
    by code_simp+
  show ?thesis
    using r e moves_made_subset_safes [OF r] by simp
qed


subsection \<open>C8: the safe-move query\<close>

text \<open>
  C8: \<open>make_safe_move\<close> returns a cell that is confirmed safe and not yet probed
  whenever there is one, returns None when there is none, and leaves the state as it
  was.
\<close>

theorem make_safe_move_correct:
  assumes "reachable a"
  shows "((\<exists>c \<in> set (safes a). c \<notin> set (moves_made a)) \<longrightarrow>
            (\<exists>c. fst (make_safe_move a) = Some c \<and> c \<in> set (safes a) \<and> c \<notin> set (moves_made a)))
       \<and> ((\<forall>c \<in> set (safes a). c \<in> set (moves_made a)) \<longrightarrow> fst (make_safe_move a) = None)
       \<and> snd (make_safe_move a) = a"
proof -
  note inv = reachable_moves_safes [OF assms]
  have eq: "set (safes a) = set (moves_made a)" if "length (safes a) = length (moves_made a)"
    using inv that same_length_same_set by blast
  have found: "\<exists>c. find (\<lambda>c. c \<notin> set (moves_made a)) (safes a) = Some c
                  \<and> c \<in> set (safes a) \<and> c \<notin> set (moves_made a)"
    if "\<exists>c \<in> set (safes a). c \<notin> set (moves_made a)"
  proof (cases "find (\<lambda>c. c \<notin> set (moves_made a)) (safes a)")
    case None
    with that show ?thesis by (auto simp: find_None_iff)
  next
    case (Some c)
    then show ?thesis using find_Some_mem [OF Some] by simp
  qed
  have none: "find (\<lambda>c. c \<notin> set (moves_made a)) (safes a) = None"
    if "\<forall>c \<in> set (safes a). c \<in> set (moves_made a)"
    using that by (simp add: find_None_iff)
  show ?thesis
    using eq found none by (auto simp: make_safe_move_def)
qed

theorem make_safe_move_correct_witness:
  "reachable (add_knowledge (init 2 2) (0, 0) 0)
   \<and> (1, 1) \<in> set (safes (add_knowledge (init 2 2) (0, 0) 0))
   \<and> (1, 1) \<notin> set (moves_made (add_knowledge (init 2 2) (0, 0) 0))
   \<and> fst (make_safe_move (add_knowledge (init 2 2) (0, 0) 0)) = Some (1, 1)"
proof -
  have r: "reachable (add_knowledge (init 2 2) (0, 0) 0)"
    by (intro reachable.intros)
  have e: "moves_made (add_knowledge (init 2 2) (0, 0) 0) = [(0, 0)]"
      "safes (add_knowledge (init 2 2) (0, 0) 0) = [(0, 0), (1, 1), (1, 0), (0, 1)]"
    by code_simp+
  have "fst (make_safe_move (add_knowledge (init 2 2) (0, 0) 0)) = Some (1, 1)"
    by code_simp
  then show ?thesis
    using r e make_safe_move_correct [OF r] by simp
qed


subsection \<open>C1: the state on return is not a fixpoint\<close>

text \<open>
  C1 at a failing input. On a 3 x 3 board with mines at (0,0) and (0,2) the driver
  reveals (2,1), (1,0) and (1,1). Before the third call the knowledge base holds
  \<open>{(0,0),(0,1)} = 1\<close>; the third call adds \<open>{(0,0),(0,1),(0,2)} = 2\<close> and runs its
  certainty sweep, and only then its deduction yields \<open>{(0,2)} = 1\<close>. The call returns
  with that statement in the knowledge base and no confirmed mine, although
  \<open>known_mines\<close> of the statement is \<open>{(0,2)}\<close> and one more run of the sweep marks
  (0,2): the state on return is not a fixpoint.
\<close>

theorem ingest_returns_before_fixpoint:
  "nearby_mines \<lparr>g_height = 3, g_width = 3, g_mines = [(0, 0), (0, 2)]\<rparr> (2, 1) = 0
   \<and> nearby_mines \<lparr>g_height = 3, g_width = 3, g_mines = [(0, 0), (0, 2)]\<rparr> (1, 0) = 1
   \<and> nearby_mines \<lparr>g_height = 3, g_width = 3, g_mines = [(0, 0), (0, 2)]\<rparr> (1, 1) = 2
   \<and> map cells (knowledge (add_knowledge (add_knowledge (init 3 3) (2, 1) 0) (1, 0) 1)) =
        [[(0, 1), (0, 0)]]
   \<and> map cells (knowledge
        (add_knowledge (add_knowledge (add_knowledge (init 3 3) (2, 1) 0) (1, 0) 1) (1, 1) 2)) =
        [[(0, 1), (0, 0)], [(0, 2), (0, 1), (0, 0)], [(0, 2)]]
   \<and> map count (knowledge
        (add_knowledge (add_knowledge (add_knowledge (init 3 3) (2, 1) 0) (1, 0) 1) (1, 1) 2)) =
        [1, 2, 1]
   \<and> mines (add_knowledge (add_knowledge (add_knowledge (init 3 3) (2, 1) 0) (1, 0) 1) (1, 1) 2)
        = []
   \<and> known_mines (knowledge
        (add_knowledge (add_knowledge (add_knowledge (init 3 3) (2, 1) 0) (1, 0) 1) (1, 1) 2) ! 2) =
        Some [(0, 2)]
   \<and> mines (certainty_sweep
        (add_knowledge (add_knowledge (add_knowledge (init 3 3) (2, 1) 0) (1, 0) 1) (1, 1) 2)) =
        [(0, 2)]"
  by code_simp

subsection \<open>C2: statements and the confirmed sets\<close>

text \<open>
  C2 at a failing input. On a 1 x 4 board with its mine at (0,1) the driver reveals
  (0,0) and then (0,2). The first call confirms (0,1) as a mine; the statement built
  by the second call filters its neighbours by \<open>safes\<close> only, so it is
  \<open>{(0,3),(0,1)} = 1\<close> and the confirmed mine (0,1) is a cell of a statement when the
  call returns. (For confirmed safe cells the invariant holds: lemma
  \<open>safes_not_in_statements\<close>.)
\<close>

theorem statement_keeps_confirmed_mine:
  "nearby_mines \<lparr>g_height = 1, g_width = 4, g_mines = [(0, 1)]\<rparr> (0, 0) = 1
   \<and> nearby_mines \<lparr>g_height = 1, g_width = 4, g_mines = [(0, 1)]\<rparr> (0, 2) = 1
   \<and> mines (add_knowledge (add_knowledge (init 1 4) (0, 0) 1) (0, 2) 1) = [(0, 1)]
   \<and> map cells (knowledge (add_knowledge (add_knowledge (init 1 4) (0, 0) 1) (0, 2) 1)) =
        [[(0, 3), (0, 1)]]
   \<and> map count (knowledge (add_knowledge (add_knowledge (init 1 4) (0, 0) 1) (0, 2) 1)) = [1]"
  by code_simp

subsection \<open>C4: subset deduction\<close>

text \<open>
  C4, as stated, fails. On a 2 x 3 board with mines at (0,0) and (0,2) the driver
  reveals (1,1), (1,0) and (1,2). When the third call reaches \<open>deduce_knowledge\<close> its
  first two statements are different objects with the same cells \<open>{(0,0)}\<close>, and
  \<open>deduce_knowledge\<close> appends nothing: no statement with an empty cell set is
  produced for the pair.
\<close>

theorem deduce_equal_cells_counterexample:
  "nearby_mines \<lparr>g_height = 2, g_width = 3, g_mines = [(0, 0), (0, 2)]\<rparr> (1, 1) = 2
   \<and> nearby_mines \<lparr>g_height = 2, g_width = 3, g_mines = [(0, 0), (0, 2)]\<rparr> (1, 0) = 1
   \<and> nearby_mines \<lparr>g_height = 2, g_width = 3, g_mines = [(0, 0), (0, 2)]\<rparr> (1, 2) = 1
   \<and> map cells (knowledge (certainty_sweep (add_sentence
       (add_knowledge (add_knowledge (init 2 3) (1, 1) 2) (1, 0) 1) (1, 2) 1))) =
     [[(0, 0)], [(0, 0)], [], []]
   \<and> map count (knowledge (certainty_sweep (add_sentence
       (add_knowledge (add_knowledge (init 2 3) (1, 1) 2) (1, 0) 1) (1, 2) 1))) =
     [1, 1, 0, 0]
   \<and> map sid (knowledge (certainty_sweep (add_sentence
       (add_knowledge (add_knowledge (init 2 3) (1, 1) 2) (1, 0) 1) (1, 2) 1))) =
     [0, 1, 2, 3]
   \<and> knowledge (deduce_knowledge (certainty_sweep (add_sentence
       (add_knowledge (add_knowledge (init 2 3) (1, 1) 2) (1, 0) 1) (1, 2) 1))) =
     knowledge (certainty_sweep (add_sentence
       (add_knowledge (add_knowledge (init 2 3) (1, 1) 2) (1, 0) 1) (1, 2) 1))"
  by code_simp

text \<open>
  C4, amended: \<open>deduce_knowledge\<close> keeps the statements it finds and appends, for every
  ordered pair (A, B) of them in which the cells of B are not empty and form a strict
  subset of the cells of A, a statement with cells A.cells - B.cells and count
  A.count - B.count, and nothing else; a pair with equal cell sets is skipped, so no
  statement with an empty cell set is appended.
\<close>

theorem deduce_knowledge_appends:
  "\<exists>new. knowledge (deduce_knowledge a) = knowledge a @ new
     \<and> (\<lambda>d. (set (cells d), count d)) ` set new =
         {(set (cells A) - set (cells B), count A - count B) | A B.
            A \<in> set (knowledge a) \<and> B \<in> set (knowledge a) \<and> set (cells B) \<noteq> {}
            \<and> set (cells B) \<subset> set (cells A)}
     \<and> (\<forall>d \<in> set new. set (cells d) \<noteq> {})"
proof -
  define new where
    "new = map (\<lambda>(k, (cs, n)). Sentence (next_id a + k) cs n)
             (enumerate 0 (deductions (knowledge a)))"
  have k: "knowledge (deduce_knowledge a) = knowledge a @ new"
    by (simp add: deduce_knowledge_def Let_def new_def)
  have s: "(\<lambda>d. (set (cells d), count d)) ` set new =
         {(set (cells A) - set (cells B), count A - count B) | A B.
            A \<in> set (knowledge a) \<and> B \<in> set (knowledge a) \<and> set (cells B) \<noteq> {}
            \<and> set (cells B) \<subset> set (cells A)}"
    unfolding new_def new_statements_image deductions_image ..
  have "set (cells d) \<noteq> {}" if "d \<in> set new" for d
  proof -
    have "(set (cells d), count d) \<in> (\<lambda>d. (set (cells d), count d)) ` set new"
      using that by (rule imageI)
    then obtain A B :: sentence where "set (cells B) \<subset> set (cells A)"
      "set (cells d) = set (cells A) - set (cells B)"
      unfolding s by blast
    then show ?thesis by auto
  qed
  with k s show ?thesis by blast
qed

theorem deduce_knowledge_appends_witness:
  "knowledge (deduce_knowledge \<lparr>height = 3, width = 3, moves_made = [], mines = [], safes = [],
      knowledge = [Sentence 0 [(0, 0), (0, 1), (0, 2)] 2, Sentence 1 [(0, 0), (0, 1)] 1],
      next_id = 2\<rparr>) =
     [Sentence 0 [(0, 0), (0, 1), (0, 2)] 2, Sentence 1 [(0, 0), (0, 1)] 1,
      Sentence 2 [(0, 2)] 1]
   \<and> set (cells (Sentence 2 [(0, 2)] 1)) \<noteq> {}"
proof -
  have e: "knowledge (deduce_knowledge \<lparr>height = 3, width = 3, moves_made = [], mines = [], safes = [],
      knowledge = [Sentence 0 [(0, 0), (0, 1), (0, 2)] 2, Sentence 1 [(0, 0), (0, 1)] 1],
      next_id = 2\<rparr>) =
     [Sentence 0 [(0, 0), (0, 1), (0, 2)] 2, Sentence 1 [(0, 0), (0, 1)] 1,
      Sentence 2 [(0, 2)] 1]"
    by code_simp
  obtain new where n: "knowledge (deduce_knowledge \<lparr>height = 3, width = 3, moves_made = [], mines = [], safes = [],
      knowledge = [Sentence 0 [(0, 0), (0, 1), (0, 2)] 2, Sentence 1 [(0, 0), (0, 1)] 1],
      next_id = 2\<rparr>) = knowledge \<lparr>height = 3, width = 3, moves_made = [], mines = [], safes = [],
      knowledge = [Sentence 0 [(0, 0), (0, 1), (0, 2)] 2, Sentence 1 [(0, 0), (0, 1)] 1],
      next_id = 2\<rparr> @ new"
    "\<forall>d \<in> set new. set (cells d) \<noteq> {}"
    using deduce_knowledge_appends [of "\<lparr>height = 3, width = 3, moves_made = [], mines = [], safes = [],
      knowledge = [Sentence 0 [(0, 0), (0, 1), (0, 2)] 2, Sentence 1 [(0, 0), (0, 1)] 1],
      next_id = 2\<rparr>"] by blast
  have "new = [Sentence 2 [(0, 2)] 1]"
    using n(1) unfolding e by simp
  then have "set (cells (Sentence 2 [(0, 2)] 1)) \<noteq> {}"
    using n(2) by simp
  with e show ?thesis by (rule conjI)
qed

subsection \<open>C5: cleanup\<close>

text \<open>
  C5 at a failing input. On a 2 x 3 board with its mine at (0,0) the driver reveals
  (0,1), (1,0) and (0,2). When the third call reaches \<open>clean_knowledge\<close> the list holds
  three statements with empty cell sets; the loop removes while it iterates, skips
  the last of them, and \<open>add_knowledge\<close> returns with a statement with an empty cell
  set in the knowledge base.
\<close>

theorem clean_knowledge_leaves_empty_statement:
  "nearby_mines \<lparr>g_height = 2, g_width = 3, g_mines = [(0, 0)]\<rparr> (0, 1) = 1
   \<and> nearby_mines \<lparr>g_height = 2, g_width = 3, g_mines = [(0, 0)]\<rparr> (1, 0) = 1
   \<and> nearby_mines \<lparr>g_height = 2, g_width = 3, g_mines = [(0, 0)]\<rparr> (0, 2) = 0
   \<and> knowledge (deduce_knowledge (certainty_sweep (add_sentence
         (add_knowledge (add_knowledge (init 2 3) (0, 1) 1) (1, 0) 1) (0, 2) 0))) =
        [\<lparr>sid = 0, cells = [], count = 0\<rparr>, \<lparr>sid = 1, cells = [], count = 0\<rparr>,
         \<lparr>sid = 2, cells = [], count = 0\<rparr>]
   \<and> knowledge (add_knowledge (add_knowledge (add_knowledge (init 2 3) (0, 1) 1) (1, 0) 1)
         (0, 2) 0) = [\<lparr>sid = 2, cells = [], count = 0\<rparr>]"
  by code_simp

subsection \<open>C6: the random move\<close>

text \<open>
  C6, as stated, fails. On a 1 x 3 board with mines at (0,1) and (0,2), so two hazards
  in total, the driver reveals (0,0). Then \<open>|moves_made| = 1 = 1 * 3 - 2\<close>, but the agent
  has confirmed one mine only, and \<open>make_random_move\<close> returns the cell (0,2) once it
  is drawn.
\<close>

theorem random_move_guard_counterexample:
  "nearby_mines \<lparr>g_height = 1, g_width = 3, g_mines = [(0, 1), (0, 2)]\<rparr> (0, 0) = 1
   \<and> moves_made (add_knowledge (init 1 3) (0, 0) 1) = [(0, 0)]
   \<and> mines (add_knowledge (init 1 3) (0, 0) 1) = [(0, 1)]
   \<and> int (length (moves_made (add_knowledge (init 1 3) (0, 0) 1))) =
        1 * 3 - int (length [(0, 1) :: cell, (0, 2)])
   \<and> make_random_move (add_knowledge (init 1 3) (0, 0) 1) [(0, 0), (0, 2)] =
        Returned (Some (0, 2))"
  by code_simp

text \<open>
  C6, amended: \<open>make_random_move\<close> returns None if
  \<open>|moves_made| = width * height - |confirmed mines|\<close>; otherwise, on a grid with a
  positive height and width, whatever it returns is a drawn coordinate that is neither
  in \<open>moves_made\<close> nor a confirmed mine (the first such draw), it returns as soon as such
  a coordinate is drawn, and such a coordinate exists in the grid whenever
  \<open>moves_made\<close> and the confirmed mines are disjoint sets of grid cells.
\<close>

theorem make_random_move_correct:
  "(int (length (moves_made a)) = width a * height a - int (length (mines a)) \<longrightarrow>
      make_random_move a draws = Returned None)
   \<and> (int (length (moves_made a)) \<noteq> width a * height a - int (length (mines a))
        \<and> 0 < height a \<and> 0 < width a \<longrightarrow>
        (\<forall>r. make_random_move a draws = Returned r \<longrightarrow>
           (\<exists>c. r = Some c \<and> c \<in> set draws \<and> c \<notin> set (moves_made a) \<and> c \<notin> set (mines a))
           \<and> (\<exists>c pre post. r = Some c \<and> draws = pre @ c # post
                \<and> (\<forall>d \<in> set pre. d \<in> set (moves_made a) \<or> d \<in> set (mines a))))
        \<and> ((\<exists>c \<in> set draws. c \<notin> set (moves_made a) \<and> c \<notin> set (mines a)) \<longrightarrow>
             (\<exists>c. make_random_move a draws = Returned (Some c)))
        \<and> make_random_move a draws \<noteq> ValueError
        \<and> (distinct (moves_made a) \<and> distinct (mines a)
             \<and> set (moves_made a) \<inter> set (mines a) = {}
             \<and> (\<forall>c \<in> set (moves_made a) \<union> set (mines a). in_grid a c) \<longrightarrow>
             (\<exists>c. in_grid a c \<and> c \<notin> set (moves_made a) \<and> c \<notin> set (mines a))))"
proof -
  have 1: "make_random_move a draws = Returned None"
    if "int (length (moves_made a)) = width a * height a - int (length (mines a))"
    using that by (simp add: make_random_move_def)
  have 2: "make_random_move a draws = random_loop a draws"
    if "int (length (moves_made a)) \<noteq> width a * height a - int (length (mines a))"
      "0 < height a" "0 < width a"
    using that by (simp add: make_random_move_def)
  show ?thesis
    using 1 2 random_loop_Returned [of a draws] random_loop_finds [of draws a]
      random_loop_no_error [of a draws] free_cell_exists [of a] random_loop_first [of a draws]
    by (intro conjI impI allI; (elim conjE)?; simp)
qed

theorem make_random_move_correct_witness:
  "make_random_move (add_knowledge (init 1 2) (0, 0) 1) [(0, 1)] = Returned None
   \<and> int (length (moves_made (add_knowledge (init 1 3) (0, 0) 1))) \<noteq>
        width (add_knowledge (init 1 3) (0, 0) 1) * height (add_knowledge (init 1 3) (0, 0) 1)
          - int (length (mines (add_knowledge (init 1 3) (0, 0) 1)))
   \<and> make_random_move (add_knowledge (init 1 3) (0, 0) 1) [(0, 0), (0, 1), (0, 2)] =
        Returned (Some (0, 2))"
proof -
  have e: "moves_made (add_knowledge (init 1 2) (0, 0) 1) = [(0, 0)]"
    "mines (add_knowledge (init 1 2) (0, 0) 1) = [(0, 1)]"
    "height (add_knowledge (init 1 2) (0, 0) 1) = 1"
    "width (add_knowledge (init 1 2) (0, 0) 1) = 2"
    by code_simp+
  have f: "moves_made (add_knowledge (init 1 3) (0, 0) 1) = [(0, 0)]"
    "mines (add_knowledge (init 1 3) (0, 0) 1) = [(0, 1)]"
    "height (add_knowledge (init 1 3) (0, 0) 1) = 1"
    "width (add_knowledge (init 1 3) (0, 0) 1) = 3"
    by code_simp+
  have g: "make_random_move (add_knowledge (init 1 3) (0, 0) 1) [(0, 0), (0, 1), (0, 2)] =
        Returned (Some (0, 2))"
    by code_simp
  show ?thesis
    using make_random_move_correct [of "add_knowledge (init 1 2) (0, 0) 1" "[(0, 1)]"]
      make_random_move_correct [of "add_knowledge (init 1 3) (0, 0) 1" "[(0, 0), (0, 1), (0, 2)]"]
      g
    by (simp only: e f) simp
qed

subsection \<open>C7: the confirmed sets are disjoint\<close>

text \<open>
  C7: after any sequence of observations of a fixed board, each of a cell of the board
  that holds no mine together with the board's count of the mines around it, no cell
  is both a confirmed mine and a confirmed safe cell; every confirmed mine is a mine
  of the board and no confirmed safe cell is.
\<close>

theorem confirmed_sets_disjoint:
  assumes "\<forall>c \<in> set obs. on_board g c \<and> \<not> is_mine g c"
  shows "set (mines (play g obs)) \<inter> set (safes (play g obs)) = {}
       \<and> set (mines (play g obs)) \<subseteq> set (g_mines g)
       \<and> set (safes (play g obs)) \<inter> set (g_mines g) = {}"
proof -
  have "sound (set (g_mines g)) (play g obs)"
    unfolding play_def using assms
    by (intro sound_fold_add_knowledge sound_init) (simp_all add: init_def)
  then show ?thesis
    by (auto simp: sound_def)
qed

theorem confirmed_sets_disjoint_witness:
  "on_board \<lparr>g_height = 3, g_width = 3, g_mines = [(0, 0), (0, 2)]\<rparr> (2, 1) \<and> \<not> is_mine \<lparr>g_height = 3, g_width = 3, g_mines = [(0, 0), (0, 2)]\<rparr> (2, 1)
   \<and> on_board \<lparr>g_height = 3, g_width = 3, g_mines = [(0, 0), (0, 2)]\<rparr> (1, 0) \<and> \<not> is_mine \<lparr>g_height = 3, g_width = 3, g_mines = [(0, 0), (0, 2)]\<rparr> (1, 0)
   \<and> on_board \<lparr>g_height = 3, g_width = 3, g_mines = [(0, 0), (0, 2)]\<rparr> (1, 1) \<and> \<not> is_mine \<lparr>g_height = 3, g_width = 3, g_mines = [(0, 0), (0, 2)]\<rparr> (1, 1)
   \<and> on_board \<lparr>g_height = 3, g_width = 3, g_mines = [(0, 0), (0, 2)]\<rparr> (1, 2) \<and> \<not> is_mine \<lparr>g_height = 3, g_width = 3, g_mines = [(0, 0), (0, 2)]\<rparr> (1, 2)
   \<and> play \<lparr>g_height = 3, g_width = 3, g_mines = [(0, 0), (0, 2)]\<rparr> [(2, 1), (1, 0), (1, 1), (1, 2)] =
      add_knowledge (add_knowledge (add_knowledge (add_knowledge (init 3 3)
        (2, 1) 0) (1, 0) 1) (1, 1) 2) (1, 2) 1
   \<and> mines (add_knowledge (add_knowledge (add_knowledge (add_knowledge (init 3 3)
        (2, 1) 0) (1, 0) 1) (1, 1) 2) (1, 2) 1) = [(0, 2)]
   \<and> set (mines (play \<lparr>g_height = 3, g_width = 3, g_mines = [(0, 0), (0, 2)]\<rparr> [(2, 1), (1, 0), (1, 1), (1, 2)]))
      \<inter> set (safes (play \<lparr>g_height = 3, g_width = 3, g_mines = [(0, 0), (0, 2)]\<rparr> [(2, 1), (1, 0), (1, 1), (1, 2)])) = {}"
proof -
  have b: "on_board \<lparr>g_height = 3, g_width = 3, g_mines = [(0, 0), (0, 2)]\<rparr> (2, 1) \<and> \<not> is_mine \<lparr>g_height = 3, g_width = 3, g_mines = [(0, 0), (0, 2)]\<rparr> (2, 1)
   \<and> on_board \<lparr>g_height = 3, g_width = 3, g_mines = [(0, 0), (0, 2)]\<rparr> (1, 0) \<and> \<not> is_mine \<lparr>g_height = 3, g_width = 3, g_mines = [(0, 0), (0, 2)]\<rparr> (1, 0)
   \<and> on_board \<lparr>g_height = 3, g_width = 3, g_mines = [(0, 0), (0, 2)]\<rparr> (1, 1) \<and> \<not> is_mine \<lparr>g_height = 3, g_width = 3, g_mines = [(0, 0), (0, 2)]\<rparr> (1, 1)
   \<and> on_board \<lparr>g_height = 3, g_width = 3, g_mines = [(0, 0), (0, 2)]\<rparr> (1, 2) \<and> \<not> is_mine \<lparr>g_height = 3, g_width = 3, g_mines = [(0, 0), (0, 2)]\<rparr> (1, 2)"
    by (simp add: on_board_def is_mine_def)
  then have h: "\<forall>c \<in> set [(2, 1), (1, 0), (1, 1), (1, 2)]. on_board \<lparr>g_height = 3, g_width = 3, g_mines = [(0, 0), (0, 2)]\<rparr> c \<and> \<not> is_mine \<lparr>g_height = 3, g_width = 3, g_mines = [(0, 0), (0, 2)]\<rparr> c"
    by simp
  have n: "nearby_mines \<lparr>g_height = 3, g_width = 3, g_mines = [(0, 0), (0, 2)]\<rparr> (2, 1) = 0"
    "nearby_mines \<lparr>g_height = 3, g_width = 3, g_mines = [(0, 0), (0, 2)]\<rparr> (1, 0) = 1"
    "nearby_mines \<lparr>g_height = 3, g_width = 3, g_mines = [(0, 0), (0, 2)]\<rparr> (1, 1) = 2"
    "nearby_mines \<lparr>g_height = 3, g_width = 3, g_mines = [(0, 0), (0, 2)]\<rparr> (1, 2) = 1"
    by code_simp+
  have p: "play \<lparr>g_height = 3, g_width = 3, g_mines = [(0, 0), (0, 2)]\<rparr> [(2, 1), (1, 0), (1, 1), (1, 2)] =
      add_knowledge (add_knowledge (add_knowledge (add_knowledge (init 3 3)
        (2, 1) 0) (1, 0) 1) (1, 1) 2) (1, 2) 1"
    by (simp add: play_def n)
  have e: "mines (add_knowledge (add_knowledge (add_knowledge (add_knowledge (init 3 3)
        (2, 1) 0) (1, 0) 1) (1, 1) 2) (1, 2) 1) = [(0, 2)]"
    by code_simp
  have d: "set (mines (play \<lparr>g_height = 3, g_width = 3, g_mines = [(0, 0), (0, 2)]\<rparr> [(2, 1), (1, 0), (1, 1), (1, 2)]))
      \<inter> set (safes (play \<lparr>g_height = 3, g_width = 3, g_mines = [(0, 0), (0, 2)]\<rparr> [(2, 1), (1, 0), (1, 1), (1, 2)])) = {}"
    using confirmed_sets_disjoint [OF h] by (rule conjunct1)
  show ?thesis
    using b p e d by (intro conjI) blast+
qed

end
